theory Spec2Isabelle
  imports Main "HOL-Library.Word" "HOL-Library.Signed_Division"
begin

section \<open>The sharded key-value store of \<open>10.Sharpness_Value_using_dp.c\<close> (second document)\<close>

text \<open>
  The store engine is modelled sequentially: the per-shard mutexes are taken and released
  around every scan in the source and carry no data, so they do not appear here.
  A C string is modelled by the list of its bytes before the terminating NUL.
  Output on \<open>stdout\<close> (\<open>printf\<close>) is not part of the state.
\<close>

subsection \<open>Compile-time constants\<close>

definition MAX_KEYS :: nat where
  "MAX_KEYS = 100"

definition MAX_KEY_LENGTH :: nat where
  "MAX_KEY_LENGTH = 50"

definition MAX_VALUE_LENGTH :: nat where
  "MAX_VALUE_LENGTH = 100"

definition SHARD_COUNT :: nat where
  "SHARD_COUNT = 3"

definition REPLICA_SERVER :: string where
  "REPLICA_SERVER = ''http://127.0.0.1:8081/set/''"

subsection \<open>Data\<close>

text \<open>
  \<open>KVEntry\<close>: \<open>char key[MAX_KEY_LENGTH]; char value[MAX_VALUE_LENGTH]; int is_active\<close>.
  The field \<open>value\<close> is called \<open>val\<close> here. A buffer of \<open>n\<close> bytes holds a string of
  at most \<open>n - 1\<close> bytes.
\<close>

record KVEntry =
  key :: string
  val :: string
  is_active :: int

text \<open>\<open>KVShard\<close> is the array \<open>store[MAX_KEYS]\<close> (and the lock, not modelled).\<close>

type_synonym KVShard = "KVEntry list"

text \<open>
  What a run of the source can leave the C abstract machine for: an index outside
  \<open>kv_shards[SHARD_COUNT]\<close>, a \<open>strcpy\<close> or \<open>%s\<close> conversion past the end of its
  destination array, a read of a local array that was never written. These are not values
  the C functions return; they mark undefined behaviour, after which the model says
  nothing about the store.
\<close>

datatype fault = Index_Out_Of_Bounds | Buffer_Overrun | Uninitialised_Read

text \<open>
  The process state: the global \<open>kv_shards\<close>, the content of \<open>kv_store.txt\<close> (\<open>None\<close>
  when the file does not exist), the content of \<open>kv_store.log\<close>, and the commands handed
  to \<open>system\<close> so far.
\<close>

record world =
  kv_shards :: "KVShard list"
  persistence_file :: "string option"
  log_file :: string
  system_calls :: "string list"

text \<open>
  What the environment answers: whether \<open>fopen\<close> of the two files succeeds, the text
  \<open>ctime\<close> returns, the status \<open>system\<close> returns for a command, and the number of
  bytes a stream opened for reading fetches from its file at a time (the size of its
  buffer, 4096 for a regular file with the GNU C library).
\<close>

record env =
  persistence_writable :: bool
  log_writable :: bool
  timestamp :: string
  system_status :: "string \<Rightarrow> int"
  read_buffer_size :: nat

text \<open>Globals are zero-initialised: every slot has empty strings and \<open>is_active = 0\<close>.\<close>

definition zero_entry :: KVEntry where
  "zero_entry = \<lparr>key = [], val = [], is_active = 0\<rparr>"

definition init_shards :: "KVShard list" where
  "init_shards = replicate SHARD_COUNT (replicate MAX_KEYS zero_entry)"

definition init_world :: world where
  "init_world = \<lparr>kv_shards = init_shards, persistence_file = None, log_file = [],
                  system_calls = []\<rparr>"

subsection \<open>Router: \<open>get_shard_index\<close>\<close>

text \<open>
  \<open>key[i]\<close> has type \<open>char\<close>, which is a signed 8-bit integer on the platform the file
  is built for (gcc on x86 Linux): bytes from \<open>0x80\<close> on read as negative numbers.
  \<open>%\<close> in C truncates towards zero (\<open>smod\<close>). \<open>hash\<close> stays within \<open>(-3, 3)\<close>, so
  \<open>hash * 31 + key[i]\<close> never overflows an \<open>int\<close>, and unbounded integers are exact.
\<close>

definition char_value :: "char \<Rightarrow> int" where
  "char_value c = sint (of_char c :: 8 word)"

fun hash_loop :: "int \<Rightarrow> string \<Rightarrow> int" where
  "hash_loop hash [] = hash"
| "hash_loop hash (c # cs) = hash_loop ((hash * 31 + char_value c) smod int SHARD_COUNT) cs"

definition get_shard_index :: "string \<Rightarrow> int" where
  "get_shard_index k = hash_loop 0 k"

subsection \<open>Audit log, persistence, replication\<close>

definition newline :: char where
  "newline = CHR 0x0A"

definition log_operation :: "env \<Rightarrow> string \<Rightarrow> string \<Rightarrow> world \<Rightarrow> world" where
  "log_operation e operation k w =
     (if \<not> log_writable e then w
      else w\<lparr>log_file := log_file w @ timestamp e @ '': '' @ operation @ '' on key '' @ k
                            @ [newline]\<rparr>)"

text \<open>The text \<open>persist_to_disk\<close> prints: one \<open>"%s %s\n"\<close> line per active slot.\<close>

definition entry_line :: "KVEntry \<Rightarrow> string" where
  "entry_line e = (if is_active e \<noteq> 0 then key e @ '' '' @ val e @ [newline] else [])"

definition snapshot :: "KVShard list \<Rightarrow> string" where
  "snapshot shards =
     concat (map (\<lambda>i. concat (map (\<lambda>j. entry_line (shards ! i ! j)) [0..<MAX_KEYS]))
                 [0..<SHARD_COUNT])"

definition persist_to_disk :: "env \<Rightarrow> world \<Rightarrow> world" where
  "persist_to_disk e w =
     (if \<not> persistence_writable e then w
      else w\<lparr>persistence_file := Some (snapshot (kv_shards w))\<rparr>)"

text \<open>
  \<open>snprintf(command, 256, ...)\<close> keeps at most 255 bytes. The status returned by
  \<open>system\<close> is computed and dropped, as in the source.
\<close>

definition replica_command :: "string \<Rightarrow> string \<Rightarrow> string" where
  "replica_command k v = take 255 (''curl -X POST '' @ REPLICA_SERVER @ k @ ''/'' @ v)"

definition replicate_to_followers :: "env \<Rightarrow> string \<Rightarrow> string \<Rightarrow> world \<Rightarrow> world" where
  "replicate_to_followers e k v w =
     (let command = replica_command k v;
          status = system_status e command
      in w\<lparr>system_calls := system_calls w @ [command]\<rparr>)"

subsection \<open>Store operations\<close>

text \<open>
  The scan of \<open>set_key\<close>: the first \<open>i < MAX_KEYS\<close> with
  \<open>!store[i].is_active || strcmp(store[i].key, key) == 0\<close>.
\<close>

definition set_slot :: "string \<Rightarrow> KVShard \<Rightarrow> nat option" where
  "set_slot k store =
     find (\<lambda>i. is_active (store ! i) = 0 \<or> key (store ! i) = k) [0..<MAX_KEYS]"

text \<open>
  The scan of \<open>get_key\<close> and \<open>delete_key\<close>: the first \<open>i < MAX_KEYS\<close> with
  \<open>store[i].is_active && strcmp(store[i].key, key) == 0\<close>.
\<close>

definition active_slot :: "string \<Rightarrow> KVShard \<Rightarrow> nat option" where
  "active_slot k store =
     find (\<lambda>i. is_active (store ! i) \<noteq> 0 \<and> key (store ! i) = k) [0..<MAX_KEYS]"

definition write_slot :: "nat \<Rightarrow> nat \<Rightarrow> KVEntry \<Rightarrow> KVShard list \<Rightarrow> KVShard list" where
  "write_slot s i e shards = shards[s := (shards ! s)[i := e]]"

text \<open>
  \<open>set_key\<close> returns \<open>void\<close>: the caller receives nothing, whichever path is taken.
  When the scan finds no slot the function only unlocks and returns.
\<close>

definition set_key :: "env \<Rightarrow> string \<Rightarrow> string \<Rightarrow> world \<Rightarrow> fault + world" where
  "set_key e k v w =
     (let shard_index = get_shard_index k in
      if shard_index < 0 \<or> int SHARD_COUNT \<le> shard_index then Inl Index_Out_Of_Bounds
      else
        (case set_slot k (kv_shards w ! nat shard_index) of
           None \<Rightarrow> Inr w
         | Some i \<Rightarrow>
             if MAX_KEY_LENGTH \<le> length k \<or> MAX_VALUE_LENGTH \<le> length v
             then Inl Buffer_Overrun
             else Inr (replicate_to_followers e k v
                        (persist_to_disk e
                          (log_operation e ''SET'' k
                            (w\<lparr>kv_shards :=
                                 write_slot (nat shard_index) i
                                   \<lparr>key = k, val = v, is_active = 1\<rparr> (kv_shards w)\<rparr>))))))"

text \<open>\<open>get_key\<close> returns the stored value, or \<open>NULL\<close> (\<open>None\<close>).\<close>

definition get_key :: "string \<Rightarrow> world \<Rightarrow> fault + string option" where
  "get_key k w =
     (let shard_index = get_shard_index k in
      if shard_index < 0 \<or> int SHARD_COUNT \<le> shard_index then Inl Index_Out_Of_Bounds
      else
        (case active_slot k (kv_shards w ! nat shard_index) of
           None \<Rightarrow> Inr None
         | Some i \<Rightarrow> Inr (Some (val (kv_shards w ! nat shard_index ! i)))))"

definition delete_key :: "string \<Rightarrow> world \<Rightarrow> fault + world" where
  "delete_key k w =
     (let shard_index = get_shard_index k in
      if shard_index < 0 \<or> int SHARD_COUNT \<le> shard_index then Inl Index_Out_Of_Bounds
      else
        (case active_slot k (kv_shards w ! nat shard_index) of
           None \<Rightarrow> Inr w
         | Some i \<Rightarrow>
             Inr (w\<lparr>kv_shards :=
                     write_slot (nat shard_index) i
                       ((kv_shards w ! nat shard_index ! i)\<lparr>is_active := 0\<rparr>) (kv_shards w)\<rparr>)))"

subsection \<open>Loading the snapshot: \<open>load_from_disk\<close>\<close>

text \<open>\<open>isspace\<close> in the C locale: space, and the bytes \<open>0x09\<close> to \<open>0x0D\<close>.\<close>

definition isspace :: "char \<Rightarrow> bool" where
  "isspace c = (c \<in> set [CHR 0x20, CHR 0x09, CHR 0x0A, CHR 0x0B, CHR 0x0C, CHR 0x0D])"

text \<open>
  The stream that \<open>fopen(PERSISTENCE_FILE, "r")\<close> returns: the bytes fetched from the file
  and not yet consumed, the file position of the next fetch, and the end-of-file
  indicator. A fetch takes at most \<open>read_buffer_size\<close> bytes, from the content the file
  has when the fetch is made: \<open>persist_to_disk\<close>, which every \<open>set_key\<close> of the loading
  loop calls, opens the same file with \<open>"w"\<close> and replaces its content while the stream
  is open. A fetch that finds nothing at its position sets the indicator, and with the
  indicator set every later read fails (ISO C, \<open>fgetc\<close>).
\<close>

record read_stream =
  pending :: string
  position :: nat
  eof_seen :: bool

definition file_text :: "world \<Rightarrow> string" where
  "file_text w = (case persistence_file w of None \<Rightarrow> [] | Some bytes \<Rightarrow> bytes)"

definition refill :: "nat \<Rightarrow> string \<Rightarrow> read_stream \<Rightarrow> read_stream" where
  "refill n bytes s =
     (if eof_seen s then s
      else
        (let chunk = take n (drop (position s) bytes) in
         if chunk = [] then s\<lparr>eof_seen := True\<rparr>
         else s\<lparr>pending := chunk, position := position s + length chunk\<rparr>))"

text \<open>The next byte of the stream, not consumed; \<open>None\<close> at end of file.\<close>

definition peek :: "nat \<Rightarrow> string \<Rightarrow> read_stream \<Rightarrow> char option \<times> read_stream" where
  "peek n bytes s =
     (case pending s of
        c # cs \<Rightarrow> (Some c, s)
      | [] \<Rightarrow>
          (let s' = refill n bytes s in
           case pending s' of [] \<Rightarrow> (None, s') | c # cs \<Rightarrow> (Some c, s')))"

definition advance :: "read_stream \<Rightarrow> read_stream" where
  "advance s = s\<lparr>pending := tl (pending s)\<rparr>"

text \<open>
  What is left to read when the file is no longer than \<open>m\<close> bytes; it bounds the number
  of bytes a scan can still consume.
\<close>

definition unread :: "nat \<Rightarrow> read_stream \<Rightarrow> nat" where
  "unread m s = length (pending s) + (m - position s)"

text \<open>
  One \<open>%s\<close> conversion of \<open>fscanf\<close>, in two steps. \<open>skip_space\<close> consumes white space
  and returns the first byte that is none (not consumed), or \<open>None\<close> at end of file, the
  input failure. \<open>read_word\<close> consumes bytes up to the next white space or the end of
  the file and returns them behind \<open>acc\<close>. Within one call of \<open>fscanf\<close> the file does
  not change.
\<close>

function skip_space :: "nat \<Rightarrow> string \<Rightarrow> read_stream \<Rightarrow> char option \<times> read_stream" where
  "skip_space n bytes s =
     (case peek n bytes s of
        (None, s') \<Rightarrow> (None, s')
      | (Some c, s') \<Rightarrow> if isspace c then skip_space n bytes (advance s') else (Some c, s'))"
  by pat_completeness auto
termination
proof -
  have peek_same: "unread m y = unread m s \<and> (r \<noteq> None \<longrightarrow> pending y \<noteq> [])"
    if p: "peek n bytes s = (r, y)" and m: "length bytes \<le> m" for n bytes s r y m
  proof (cases "pending s")
    case (Cons c cs)
    with p show ?thesis
      by (auto simp: peek_def)
  next
    case Nil
    define chunk where "chunk = take n (drop (position s) bytes)"
    have fetch: "refill n bytes s =
        (if eof_seen s \<or> chunk = [] then s\<lparr>eof_seen := True\<rparr>
         else s\<lparr>pending := chunk, position := position s + length chunk\<rparr>)"
      by (simp add: refill_def Let_def chunk_def)
    have "length chunk \<le> length bytes - position s"
      by (simp add: chunk_def)
    with m have len: "length chunk \<le> m - position s"
      by linarith
    show ?thesis
    proof (cases "eof_seen s \<or> chunk = []")
      case True
      with p Nil fetch have "r = None" "y = s\<lparr>eof_seen := True\<rparr>"
        by (simp_all add: peek_def Let_def)
      with Nil show ?thesis
        by (simp add: unread_def)
    next
      case False
      then obtain c cs where c: "chunk = c # cs"
        by (cases chunk) auto
      with p Nil fetch False have "r = Some c"
        "y = s\<lparr>pending := chunk, position := position s + length chunk\<rparr>"
        by (simp_all add: peek_def Let_def)
      with Nil len c show ?thesis
        by (simp add: unread_def)
    qed
  qed
  have advance_less: "unread m (advance y) < unread m y" if "pending y \<noteq> []" for m y
    using that by (cases "pending y") (simp_all add: unread_def advance_def)
  show ?thesis
  proof (relation "measure (\<lambda>(n, bytes, s). unread (length bytes) s)")
    show "wf (measure (\<lambda>(n, bytes, s). unread (length bytes) s))"
      by simp
  next
    fix n :: nat and bytes :: string and s y :: read_stream and x :: "char option"
      and x2 :: char
    assume "(x, y) = peek n bytes s" "x = Some x2"
    then have p: "peek n bytes s = (Some x2, y)"
      by simp
    have "unread (length bytes) y = unread (length bytes) s" "pending y \<noteq> []"
      using peek_same [OF p, of "length bytes"] by simp_all
    then have "unread (length bytes) (advance y) < unread (length bytes) s"
      using advance_less [of y "length bytes"] by simp
    then show "((n, bytes, advance y), n, bytes, s)
                 \<in> measure (\<lambda>(n, bytes, s). unread (length bytes) s)"
      by simp
  qed
qed

function read_word ::
  "nat \<Rightarrow> string \<Rightarrow> read_stream \<Rightarrow> string \<Rightarrow> string \<times> read_stream" where
  "read_word n bytes s acc =
     (case peek n bytes s of
        (None, s') \<Rightarrow> (acc, s')
      | (Some c, s') \<Rightarrow>
          if isspace c then (acc, s') else read_word n bytes (advance s') (acc @ [c]))"
  by pat_completeness auto
termination
proof -
  have peek_same: "unread m y = unread m s \<and> (r \<noteq> None \<longrightarrow> pending y \<noteq> [])"
    if p: "peek n bytes s = (r, y)" and m: "length bytes \<le> m" for n bytes s r y m
  proof (cases "pending s")
    case (Cons c cs)
    with p show ?thesis
      by (auto simp: peek_def)
  next
    case Nil
    define chunk where "chunk = take n (drop (position s) bytes)"
    have fetch: "refill n bytes s =
        (if eof_seen s \<or> chunk = [] then s\<lparr>eof_seen := True\<rparr>
         else s\<lparr>pending := chunk, position := position s + length chunk\<rparr>)"
      by (simp add: refill_def Let_def chunk_def)
    have "length chunk \<le> length bytes - position s"
      by (simp add: chunk_def)
    with m have len: "length chunk \<le> m - position s"
      by linarith
    show ?thesis
    proof (cases "eof_seen s \<or> chunk = []")
      case True
      with p Nil fetch have "r = None" "y = s\<lparr>eof_seen := True\<rparr>"
        by (simp_all add: peek_def Let_def)
      with Nil show ?thesis
        by (simp add: unread_def)
    next
      case False
      then obtain c cs where c: "chunk = c # cs"
        by (cases chunk) auto
      with p Nil fetch False have "r = Some c"
        "y = s\<lparr>pending := chunk, position := position s + length chunk\<rparr>"
        by (simp_all add: peek_def Let_def)
      with Nil len c show ?thesis
        by (simp add: unread_def)
    qed
  qed
  have advance_less: "unread m (advance y) < unread m y" if "pending y \<noteq> []" for m y
    using that by (cases "pending y") (simp_all add: unread_def advance_def)
  show ?thesis
  proof (relation "measure (\<lambda>(n, bytes, s, acc). unread (length bytes) s)")
    show "wf (measure (\<lambda>(n, bytes, s, acc). unread (length bytes) s))"
      by simp
  next
    fix n :: nat and bytes acc :: string and s y :: read_stream and x :: "char option"
      and x2 :: char
    assume "(x, y) = peek n bytes s" "x = Some x2"
    then have p: "peek n bytes s = (Some x2, y)"
      by simp
    have "unread (length bytes) y = unread (length bytes) s" "pending y \<noteq> []"
      using peek_same [OF p, of "length bytes"] by simp_all
    then have "unread (length bytes) (advance y) < unread (length bytes) s"
      using advance_less [of y "length bytes"] by simp
    then show "((n, bytes, advance y, acc @ [x2]), n, bytes, s, acc)
                 \<in> measure (\<lambda>(n, bytes, s, acc). unread (length bytes) s)"
      by simp
  qed
qed

declare skip_space.simps [simp del] read_word.simps [simp del]

definition scan_string ::
  "nat \<Rightarrow> string \<Rightarrow> read_stream \<Rightarrow> string option \<times> read_stream" where
  "scan_string n bytes s =
     (case skip_space n bytes s of
        (None, s1) \<Rightarrow> (None, s1)
      | (Some c, s1) \<Rightarrow>
          (case read_word n bytes (advance s1) [c] of (t, s2) \<Rightarrow> (Some t, s2)))"

text \<open>
  Two bounds used for the termination of the loading loop: no snapshot of a store is
  longer than \<open>snapshot_bound\<close>, which a \<open>set_key\<close> that returns never increases; so the
  file never grows beyond \<open>load_bound\<close> while the loop runs.
\<close>

definition snapshot_bound :: "KVShard list \<Rightarrow> nat" where
  "snapshot_bound shards =
     sum_list (map (\<lambda>i. sum_list (map (\<lambda>j. max (length (entry_line (shards ! i ! j)))
                                                (MAX_KEY_LENGTH + MAX_VALUE_LENGTH))
                                     [0..<MAX_KEYS]))
                   [0..<SHARD_COUNT])"

definition load_bound :: "world \<Rightarrow> nat" where
  "load_bound w = max (length (file_text w)) (snapshot_bound (kv_shards w))"

text \<open>
  The string a \<open>char\<close> array holds for \<open>strcmp\<close> and \<open>strcpy\<close>: its bytes before the
  first NUL. \<open>%s\<close> stores a NUL byte of the file like any other byte that is not white
  space.
\<close>

definition c_string :: "string \<Rightarrow> string" where
  "c_string bytes = takeWhile (\<lambda>c. c \<noteq> CHR 0x00) bytes"

text \<open>
  The loop \<open>while (fscanf(file, "%s %s", key, value) != EOF) set_key(key, value)\<close>.
  \<open>s\<close> is the open stream, \<open>vbuf\<close> the content of the local array \<open>value\<close> (\<open>None\<close>
  until it is first written), \<open>w\<close> the state, whose file the stream fetches from.
  \<open>fscanf\<close> returns \<open>EOF\<close> when the stream ends before the first token, and 1 when it
  ends before the second one: the loop body then runs with the key just read and the
  value left in the buffer by the iteration before; when there was no iteration before,
  the array handed to \<open>set_key\<close> was never written, and the model stops there. A token
  that does not fit its array overruns it.
\<close>

function load_loop ::
  "env \<Rightarrow> read_stream \<Rightarrow> string option \<Rightarrow> world \<Rightarrow> fault + world" where
  "load_loop e s vbuf w =
     (case scan_string (read_buffer_size e) (file_text w) s of
        (None, s1) \<Rightarrow> Inr w
      | (Some k, s1) \<Rightarrow>
          if MAX_KEY_LENGTH \<le> length k then Inl Buffer_Overrun
          else
            (case scan_string (read_buffer_size e) (file_text w) s1 of
               (None, s2) \<Rightarrow>
                 (case vbuf of
                    None \<Rightarrow> Inl Uninitialised_Read
                  | Some v \<Rightarrow>
                      (case set_key e (c_string k) (c_string v) w of
                         Inl f \<Rightarrow> Inl f
                       | Inr w' \<Rightarrow> load_loop e s2 vbuf w'))
             | (Some v, s2) \<Rightarrow>
                 if MAX_VALUE_LENGTH \<le> length v then Inl Buffer_Overrun
                 else
                   (case set_key e (c_string k) (c_string v) w of
                      Inl f \<Rightarrow> Inl f
                    | Inr w' \<Rightarrow> load_loop e s2 (Some v) w')))"
  by pat_completeness auto
termination
proof -
  have peek_same: "unread m y = unread m s \<and> (r \<noteq> None \<longrightarrow> pending y \<noteq> [])"
    if p: "peek n bytes s = (r, y)" and m: "length bytes \<le> m" for n bytes s r y m
  proof (cases "pending s")
    case (Cons c cs)
    with p show ?thesis
      by (auto simp: peek_def)
  next
    case Nil
    define chunk where "chunk = take n (drop (position s) bytes)"
    have fetch: "refill n bytes s =
        (if eof_seen s \<or> chunk = [] then s\<lparr>eof_seen := True\<rparr>
         else s\<lparr>pending := chunk, position := position s + length chunk\<rparr>)"
      by (simp add: refill_def Let_def chunk_def)
    have "length chunk \<le> length bytes - position s"
      by (simp add: chunk_def)
    with m have len: "length chunk \<le> m - position s"
      by linarith
    show ?thesis
    proof (cases "eof_seen s \<or> chunk = []")
      case True
      with p Nil fetch have "r = None" "y = s\<lparr>eof_seen := True\<rparr>"
        by (simp_all add: peek_def Let_def)
      with Nil show ?thesis
        by (simp add: unread_def)
    next
      case False
      then obtain c cs where c: "chunk = c # cs"
        by (cases chunk) auto
      with p Nil fetch False have "r = Some c"
        "y = s\<lparr>pending := chunk, position := position s + length chunk\<rparr>"
        by (simp_all add: peek_def Let_def)
      with Nil len c show ?thesis
        by (simp add: unread_def)
    qed
  qed
  have advance_less: "unread m (advance y) < unread m y" if "pending y \<noteq> []" for m y
    using that by (cases "pending y") (simp_all add: unread_def advance_def)
  have skip: "unread m y \<le> unread m s \<and> (r \<noteq> None \<longrightarrow> pending y \<noteq> [])"
    if "skip_space n bytes s = (r, y)" and "length bytes \<le> m" for n bytes s r y m
    using that
  proof (induction n bytes s rule: skip_space.induct)
    case (1 n bytes s)
    obtain r1 s1 where p: "peek n bytes s = (r1, s1)"
      by (cases "peek n bytes s")
    note same = peek_same [OF p "1.prems"(2)]
    show ?case
    proof (cases r1)
      case None
      with "1.prems"(1) p same show ?thesis
        by (simp add: skip_space.simps [of n bytes s])
    next
      case (Some c)
      show ?thesis
      proof (cases "isspace c")
        case True
        with "1.prems"(1) p Some have "skip_space n bytes (advance s1) = (r, y)"
          by (simp add: skip_space.simps [of n bytes s])
        from "1.IH" [OF p [symmetric] Some True this "1.prems"(2)]
        have "unread m y \<le> unread m (advance s1)" "r \<noteq> None \<longrightarrow> pending y \<noteq> []"
          by simp_all
        moreover have "unread m (advance s1) < unread m s1"
          using same Some by (intro advance_less) simp
        ultimately show ?thesis
          using same by simp
      next
        case False
        with "1.prems"(1) p Some same show ?thesis
          by (simp add: skip_space.simps [of n bytes s])
      qed
    qed
  qed
  have word: "unread m y \<le> unread m s"
    if "read_word n bytes s acc = (t, y)" and "length bytes \<le> m" for n bytes s acc t y m
    using that
  proof (induction n bytes s acc rule: read_word.induct)
    case (1 n bytes s acc)
    obtain r1 s1 where p: "peek n bytes s = (r1, s1)"
      by (cases "peek n bytes s")
    note same = peek_same [OF p "1.prems"(2)]
    show ?case
    proof (cases r1)
      case None
      with "1.prems"(1) p same show ?thesis
        by (simp add: read_word.simps [of n bytes s])
    next
      case (Some c)
      show ?thesis
      proof (cases "isspace c")
        case True
        with "1.prems"(1) p Some same show ?thesis
          by (simp add: read_word.simps [of n bytes s])
      next
        case False
        with "1.prems"(1) p Some have "read_word n bytes (advance s1) (acc @ [c]) = (t, y)"
          by (simp add: read_word.simps [of n bytes s])
        from "1.IH" [OF p [symmetric] Some False this "1.prems"(2)]
        have "unread m y \<le> unread m (advance s1)" .
        moreover have "unread m (advance s1) < unread m s1"
          using same Some by (intro advance_less) simp
        ultimately show ?thesis
          using same by simp
      qed
    qed
  qed
  have scan: "unread m y \<le> unread m s \<and> (r \<noteq> None \<longrightarrow> unread m y < unread m s)"
    if sc: "scan_string n bytes s = (r, y)" and m: "length bytes \<le> m" for n bytes s r y m
  proof -
    obtain r1 s1 where sk: "skip_space n bytes s = (r1, s1)"
      by (cases "skip_space n bytes s")
    note le = skip [OF sk m]
    show ?thesis
    proof (cases r1)
      case None
      with sc sk le show ?thesis
        by (simp add: scan_string_def)
    next
      case (Some c)
      obtain t s2 where rw: "read_word n bytes (advance s1) [c] = (t, s2)"
        by (cases "read_word n bytes (advance s1) [c]")
      with sc sk Some have "y = s2"
        by (simp add: scan_string_def)
      moreover have "unread m s2 \<le> unread m (advance s1)"
        using rw m by (rule word)
      moreover have "unread m (advance s1) < unread m s1"
        using le Some by (intro advance_less) simp
      ultimately show ?thesis
        using le by simp
    qed
  qed
  have snapshot_le: "length (snapshot shards) \<le> snapshot_bound shards" for shards
    unfolding snapshot_def snapshot_bound_def length_concat map_map comp_def
    by (intro sum_list_mono) simp
  have write_le: "snapshot_bound (write_slot i j x shards) \<le> snapshot_bound shards"
    if x: "length (entry_line x) \<le> MAX_KEY_LENGTH + MAX_VALUE_LENGTH" for i j x shards
  proof -
    have d: "write_slot i j x shards ! i' ! j' = x
            \<or> write_slot i j x shards ! i' ! j' = shards ! i' ! j'" for i' j'
      by (cases "i' = i"; cases "i < length shards"; cases "j' = j";
          cases "j < length (shards ! i)")
         (simp_all add: write_slot_def list_update_beyond)
    have "max (length (entry_line (write_slot i j x shards ! i' ! j')))
                 (MAX_KEY_LENGTH + MAX_VALUE_LENGTH)
               \<le> max (length (entry_line (shards ! i' ! j'))) (MAX_KEY_LENGTH + MAX_VALUE_LENGTH)"
      for i' j'
      using x d [of i' j'] by (auto simp: max_def)
    then show ?thesis
      unfolding snapshot_bound_def by (intro sum_list_mono) blast
  qed
  have bound_set: "load_bound w' \<le> load_bound w" if "set_key e k v w = Inr w'" for e k v w w'
  proof -
    let ?x = "\<lparr>key = k, val = v, is_active = 1\<rparr>"
    from that consider "w' = w"
      | i where "length k < MAX_KEY_LENGTH" "length v < MAX_VALUE_LENGTH"
          "w' = replicate_to_followers e k v (persist_to_disk e (log_operation e ''SET'' k
                 (w\<lparr>kv_shards := write_slot (nat (get_shard_index k)) i ?x (kv_shards w)\<rparr>)))"
      by (auto simp: set_key_def Let_def split: if_splits option.splits)
    then show ?thesis
    proof cases
      case 1
      then show ?thesis by simp
    next
      case 2
      let ?X = "write_slot (nat (get_shard_index k)) i ?x (kv_shards w)"
      have "length (entry_line ?x) \<le> MAX_KEY_LENGTH + MAX_VALUE_LENGTH"
        using 2(1,2) by (simp add: entry_line_def)
      then have b: "snapshot_bound ?X \<le> snapshot_bound (kv_shards w)"
        by (rule write_le)
      have sh: "kv_shards w' = ?X"
        by (simp add: 2(3) replicate_to_followers_def persist_to_disk_def log_operation_def
            Let_def)
      have "file_text w' = file_text w \<or> file_text w' = snapshot ?X"
        by (simp add: 2(3) replicate_to_followers_def persist_to_disk_def log_operation_def
            Let_def file_text_def)
      then have "length (file_text w') \<le> max (length (file_text w)) (snapshot_bound ?X)"
        using snapshot_le [of ?X] by auto
      with b show ?thesis
        unfolding load_bound_def sh by linarith
    qed
  qed
  have step: "unread (load_bound w') s2 < unread (load_bound w) s"
    if "(Some t, s1) = scan_string (read_buffer_size e) (file_text w) s"
      and "(r, s2) = scan_string (read_buffer_size e) (file_text w) s1"
      and "set_key e k v w = Inr w'" for e s s1 s2 t r k v w w'
  proof -
    have m: "length (file_text w) \<le> load_bound w"
      by (simp add: load_bound_def)
    have "unread (load_bound w) s1 < unread (load_bound w) s"
      using scan [OF that(1) [symmetric] m] by simp
    moreover have "unread (load_bound w) s2 \<le> unread (load_bound w) s1"
      using scan [OF that(2) [symmetric] m] by simp
    moreover have "unread (load_bound w') s2 \<le> unread (load_bound w) s2"
      using bound_set [OF that(3)] by (simp add: unread_def)
    ultimately show ?thesis
      by simp
  qed
  show ?thesis
  proof (relation "measure (\<lambda>(e, s, vbuf, w). unread (load_bound w) s)")
    show "wf (measure (\<lambda>(e, s, vbuf, w). unread (load_bound w) s))"
      by simp
  next
    fix e :: env and s y ya :: read_stream and vbuf :: "string option" and w b :: world
      and x xa :: "string option" and x2 x2a :: string
    assume "(x, y) = scan_string (read_buffer_size e) (file_text w) s" "x = Some x2"
      "(xa, ya) = scan_string (read_buffer_size e) (file_text w) y" "xa = None"
      "vbuf = Some x2a" "set_key e (c_string x2) (c_string x2a) w = Inr b"
    then show "((e, ya, vbuf, b), e, s, vbuf, w)
                 \<in> measure (\<lambda>(e, s, vbuf, w). unread (load_bound w) s)"
      using step [of x2 y e w s None ya "c_string x2" "c_string x2a" b] by simp
  next
    fix e :: env and s y ya :: read_stream and vbuf :: "string option" and w b :: world
      and x xa :: "string option" and x2 x2a :: string
    assume "(x, y) = scan_string (read_buffer_size e) (file_text w) s" "x = Some x2"
      "(xa, ya) = scan_string (read_buffer_size e) (file_text w) y" "xa = Some x2a"
      "set_key e (c_string x2) (c_string x2a) w = Inr b"
    then show "((e, ya, Some x2a, b), e, s, vbuf, w)
                 \<in> measure (\<lambda>(e, s, vbuf, w). unread (load_bound w) s)"
      using step [of x2 y e w s "Some x2a" ya "c_string x2" "c_string x2a" b] by simp
  qed
qed

declare load_loop.simps [simp del]

text \<open>\<open>fopen\<close> fails when the file does not exist; a new stream has fetched nothing.\<close>

definition load_from_disk :: "env \<Rightarrow> world \<Rightarrow> fault + world" where
  "load_from_disk e w =
     (case persistence_file w of
        None \<Rightarrow> Inr w
      | Some bytes \<Rightarrow> load_loop e \<lparr>pending = [], position = 0, eof_seen = False\<rparr> None w)"

subsection \<open>Sequences of operations\<close>

datatype operation = Set string string | Get string | Delete string | Load | Persist

fun apply_operation :: "env \<Rightarrow> operation \<Rightarrow> world \<Rightarrow> fault + world" where
  "apply_operation e (Set k v) w = set_key e k v w"
| "apply_operation e (Get k) w = (case get_key k w of Inl f \<Rightarrow> Inl f | Inr r \<Rightarrow> Inr w)"
| "apply_operation e (Delete k) w = delete_key k w"
| "apply_operation e Load w = load_from_disk e w"
| "apply_operation e Persist w = Inr (persist_to_disk e w)"

fun run :: "env \<Rightarrow> operation list \<Rightarrow> world \<Rightarrow> fault + world" where
  "run e [] w = Inr w"
| "run e (x # xs) w = (case apply_operation e x w of Inl f \<Rightarrow> Inl f | Inr w' \<Rightarrow> run e xs w')"

text \<open>An environment in which every file can be opened and \<open>curl\<close> succeeds.\<close>

definition env_ok :: env where
  "env_ok = \<lparr>persistence_writable = True, log_writable = True,
              timestamp = ''Tue Nov  3 12:00:00 2026'' @ [newline], system_status = (\<lambda>c. 0),
              read_buffer_size = 4096\<rparr>"

subsection \<open>Notions used in the statements\<close>

text \<open>The shard \<open>kv_shards[get_shard_index(key)]\<close> an operation on \<open>k\<close> works on.\<close>

definition target_shard :: "world \<Rightarrow> string \<Rightarrow> KVShard" where
  "target_shard w k = kv_shards w ! nat (get_shard_index k)"

text \<open>The array bounds of the C declarations \<open>kv_shards[SHARD_COUNT]\<close>, \<open>store[MAX_KEYS]\<close>.\<close>

definition well_formed :: "world \<Rightarrow> bool" where
  "well_formed w \<longleftrightarrow>
     length (kv_shards w) = SHARD_COUNT \<and> (\<forall>s<SHARD_COUNT. length (kv_shards w ! s) = MAX_KEYS)"

text \<open>A new process on the same files: the globals are zero again, the files are kept.\<close>

definition restart :: "world \<Rightarrow> world" where
  "restart w = w\<lparr>kv_shards := init_shards\<rparr>"


definition set_operation :: "string \<times> string \<Rightarrow> operation" where
  "set_operation p = Set (fst p) (snd p)"

text \<open>Observations after a sequence of operations on the initial store.\<close>

definition get_after :: "env \<Rightarrow> operation list \<Rightarrow> string \<Rightarrow> fault + string option" where
  "get_after e ops k = (case run e ops init_world of Inl f \<Rightarrow> Inl f | Inr w \<Rightarrow> get_key k w)"

definition slot_after :: "env \<Rightarrow> operation list \<Rightarrow> nat \<Rightarrow> nat \<Rightarrow> fault + KVEntry" where
  "slot_after e ops s i =
     (case run e ops init_world of Inl f \<Rightarrow> Inl f | Inr w \<Rightarrow> Inr (kv_shards w ! s ! i))"

text \<open>
  What the two scans select for \<open>k\<close> after a sequence of operations: the slot
  \<open>get_key\<close>/\<open>delete_key\<close> find, and the slot \<open>set_key\<close> writes.
\<close>

definition scan_after ::
  "env \<Rightarrow> operation list \<Rightarrow> string \<Rightarrow> fault + nat option \<times> nat option" where
  "scan_after e ops k =
     (case run e ops init_world of
        Inl f \<Rightarrow> Inl f
      | Inr w \<Rightarrow> Inr (active_slot k (target_shard w k), set_slot k (target_shard w k)))"

text \<open>
  The store in which the pairs \<open>qs\<close> were set one after the other into the zeroed store:
  every shard holds the pairs routed to it, in order, from slot 0 on.
\<close>

definition active_entry :: "string \<times> string \<Rightarrow> KVEntry" where
  "active_entry p = \<lparr>key = fst p, val = snd p, is_active = 1\<rparr>"

definition routed_to :: "nat \<Rightarrow> string \<times> string \<Rightarrow> bool" where
  "routed_to s p \<longleftrightarrow> get_shard_index (fst p) = int s"

definition filled :: "(string \<times> string) list \<Rightarrow> nat \<Rightarrow> KVShard" where
  "filled qs s =
     map active_entry (filter (routed_to s) qs)
       @ replicate (MAX_KEYS - length (filter (routed_to s) qs)) zero_entry"

definition loaded :: "(string \<times> string) list \<Rightarrow> KVShard list" where
  "loaded qs = map (filled qs) [0..<SHARD_COUNT]"







text \<open>
  What get returns in a new process that has loaded the snapshot left by a sequence of
  operations on the initial store.
\<close>

definition get_after_restart :: "env \<Rightarrow> operation list \<Rightarrow> string \<Rightarrow> fault + string option" where
  "get_after_restart e ops k =
     (case run e ops init_world of
        Inl f \<Rightarrow> Inl f
      | Inr w \<Rightarrow>
          (case load_from_disk e (restart w) of Inl f \<Rightarrow> Inl f | Inr w' \<Rightarrow> get_key k w'))"

text \<open>
  One hundred distinct two-byte keys that the router sends to shard 0, and the store
  after setting each of them once.
\<close>

definition keys100 :: "string list" where
  "keys100 = concat (map (\<lambda>a. map (\<lambda>b. [a, b]) ''cfilorux03'') ''cfilorux03'')"

definition pairs100 :: "(string \<times> string) list" where
  "pairs100 = map (\<lambda>k. (k, ''v'')) keys100"

definition full_world :: world where
  "full_world =
     (case run env_ok (map set_operation pairs100) init_world of
        Inl f \<Rightarrow> init_world
      | Inr w \<Rightarrow> w)"

text \<open>The four operations after which shard 1 holds the key \<open>d\<close> twice.\<close>

definition duplicating_operations :: "operation list" where
  "duplicating_operations =
     [Set ''a'' ''1'', Set ''d'' ''2'', Delete ''a'', Set ''d'' ''3'']"

text \<open>A store with the single active entry \<open>(a, 1)\<close>, in slot 0 of shard 1.\<close>

definition single_world :: world where
  "single_world =
     init_world\<lparr>kv_shards := write_slot 1 0 \<lparr>key = ''a'', val = ''1'', is_active = 1\<rparr> init_shards\<rparr>"

section \<open>Properties of the scans and of the router\<close>

lemma find_upt_Some:
  "find P [0..<n] = Some i \<longleftrightarrow> i < n \<and> P i \<and> (\<forall>j<i. \<not> P j)"
  by (auto simp: find_Some_iff)

lemma find_upt_None:
  "find P [0..<n] = None \<longleftrightarrow> (\<forall>i<n. \<not> P i)"
  by (auto simp: find_None_iff)

lemma set_slot_Some:
  "set_slot k store = Some i \<longleftrightarrow>
     i < MAX_KEYS \<and> (is_active (store ! i) = 0 \<or> key (store ! i) = k) \<and>
     (\<forall>j<i. is_active (store ! j) \<noteq> 0 \<and> key (store ! j) \<noteq> k)"
  by (auto simp: set_slot_def find_upt_Some)

lemma set_slot_None:
  "set_slot k store = None \<longleftrightarrow>
     (\<forall>i<MAX_KEYS. is_active (store ! i) \<noteq> 0 \<and> key (store ! i) \<noteq> k)"
  by (auto simp: set_slot_def find_upt_None)

lemma active_slot_Some:
  "active_slot k store = Some i \<longleftrightarrow>
     i < MAX_KEYS \<and> is_active (store ! i) \<noteq> 0 \<and> key (store ! i) = k \<and>
     (\<forall>j<i. \<not> (is_active (store ! j) \<noteq> 0 \<and> key (store ! j) = k))"
  by (auto simp: active_slot_def find_upt_Some)

lemma active_slot_None:
  "active_slot k store = None \<longleftrightarrow>
     (\<forall>i<MAX_KEYS. \<not> (is_active (store ! i) \<noteq> 0 \<and> key (store ! i) = k))"
  by (auto simp: active_slot_def find_upt_None)

lemma kv_shards_effects [simp]:
  "kv_shards (log_operation e operation k w) = kv_shards w"
  "kv_shards (persist_to_disk e w) = kv_shards w"
  "kv_shards (replicate_to_followers e k v w) = kv_shards w"
  by (simp_all add: log_operation_def persist_to_disk_def replicate_to_followers_def Let_def)

lemma system_calls_effects [simp]:
  "system_calls (log_operation e operation k w) = system_calls w"
  "system_calls (persist_to_disk e w) = system_calls w"
  "system_calls (replicate_to_followers e k v w) = system_calls w @ [replica_command k v]"
  by (simp_all add: log_operation_def persist_to_disk_def replicate_to_followers_def Let_def)

lemma hash_loop_range:
  "- 3 < h \<Longrightarrow> h < 3 \<Longrightarrow> - 3 < hash_loop h k \<and> hash_loop h k < 3"
proof (induction k arbitrary: h)
  case Nil
  then show ?case by simp
next
  case (Cons c cs)
  have "(h * 31 + char_value c) smod 3 \<in> {- \<bar>3\<bar> + 1..\<bar>3\<bar> - 1}"
    by (rule smod_int_range) simp
  then have "- 3 < (h * 31 + char_value c) smod 3" "(h * 31 + char_value c) smod 3 < 3"
    by simp_all
  then show ?case
    using Cons.IH [of "(h * 31 + char_value c) smod 3"] by (simp add: SHARD_COUNT_def)
qed

lemma get_shard_index_upper: "get_shard_index k < int SHARD_COUNT"
  using hash_loop_range [of 0 k] by (simp add: get_shard_index_def SHARD_COUNT_def)

lemma shard_of_less: "0 \<le> get_shard_index k \<Longrightarrow> nat (get_shard_index k) < SHARD_COUNT"
  using get_shard_index_upper [of k] by simp

lemma set_key_dropped:
  assumes "0 \<le> get_shard_index k" "set_slot k (target_shard w k) = None"
  shows "set_key e k v w = Inr w"
  using assms get_shard_index_upper [of k]
  by (simp add: set_key_def target_shard_def Let_def)

lemma set_key_written:
  assumes "0 \<le> get_shard_index k" "set_slot k (target_shard w k) = Some i"
    and "length k < MAX_KEY_LENGTH" "length v < MAX_VALUE_LENGTH"
  shows "\<exists>w'. set_key e k v w = Inr w' \<and>
           kv_shards w' = write_slot (nat (get_shard_index k)) i
                            \<lparr>key = k, val = v, is_active = 1\<rparr> (kv_shards w) \<and>
           system_calls w' = system_calls w @ [replica_command k v]"
  using assms get_shard_index_upper [of k]
  by (simp add: set_key_def target_shard_def Let_def)

lemma set_key_Inr:
  assumes "set_key e k v w = Inr w'"
  shows "0 \<le> get_shard_index k \<and>
     (set_slot k (target_shard w k) = None \<and> w' = w \<or>
      (\<exists>i. set_slot k (target_shard w k) = Some i \<and>
           length k < MAX_KEY_LENGTH \<and> length v < MAX_VALUE_LENGTH \<and>
           kv_shards w' = write_slot (nat (get_shard_index k)) i
                            \<lparr>key = k, val = v, is_active = 1\<rparr> (kv_shards w) \<and>
           system_calls w' = system_calls w @ [replica_command k v]))"
  using assms
  by (auto simp: set_key_def target_shard_def Let_def split: if_splits option.splits)

lemma delete_key_Inr:
  assumes "delete_key k w = Inr w'"
  shows "0 \<le> get_shard_index k \<and>
     (active_slot k (target_shard w k) = None \<and> w' = w \<or>
      (\<exists>i. active_slot k (target_shard w k) = Some i \<and>
           kv_shards w' = write_slot (nat (get_shard_index k)) i
                            ((target_shard w k ! i)\<lparr>is_active := 0\<rparr>) (kv_shards w)))"
  using assms
  by (auto simp: delete_key_def target_shard_def Let_def split: if_splits option.splits)

lemma write_slot_other:
  "s' \<noteq> s \<or> j \<noteq> i \<Longrightarrow> write_slot s i x shards ! s' ! j = shards ! s' ! j"
  by (cases "s' = s"; cases "s < length shards") (auto simp: write_slot_def list_update_beyond)

lemma write_slot_same:
  "s < length shards \<Longrightarrow> i < length (shards ! s) \<Longrightarrow> write_slot s i x shards ! s ! i = x"
  by (simp add: write_slot_def)

lemma write_slot_shard:
  "s < length shards \<Longrightarrow> write_slot s i x shards ! s = (shards ! s)[i := x]"
  by (simp add: write_slot_def)

lemma get_key_eq:
  assumes "0 \<le> get_shard_index k"
  shows "get_key k w = Inr (case active_slot k (target_shard w k) of None \<Rightarrow> None
                            | Some i \<Rightarrow> Some (val (target_shard w k ! i)))"
  using assms get_shard_index_upper [of k]
  by (simp add: get_key_def target_shard_def Let_def split: option.splits)

lemma wf_target:
  "well_formed w \<Longrightarrow> 0 \<le> get_shard_index k \<Longrightarrow>
     nat (get_shard_index k) < length (kv_shards w) \<and> length (target_shard w k) = MAX_KEYS"
  using shard_of_less [of k] by (simp add: well_formed_def target_shard_def)

section \<open>Setting distinct keys into the zeroed store\<close>

lemma loaded_nth: "s < SHARD_COUNT \<Longrightarrow> loaded qs ! s = filled qs s"
  by (simp add: loaded_def)

lemma length_loaded: "length (loaded qs) = SHARD_COUNT"
  by (simp add: loaded_def)

lemma loaded_Nil: "loaded [] = init_shards"
proof -
  have "filled [] = (\<lambda>s. replicate MAX_KEYS zero_entry)"
    by (rule ext) (simp add: filled_def)
  then show ?thesis
    by (simp add: loaded_def init_shards_def map_replicate_const)
qed

lemma filled_nth_active:
  "j < length (filter (routed_to s) qs) \<Longrightarrow>
     filled qs s ! j = active_entry (filter (routed_to s) qs ! j)"
  by (simp add: filled_def nth_append)

lemma filled_nth_zero:
  "length (filter (routed_to s) qs) \<le> j \<Longrightarrow> j < MAX_KEYS \<Longrightarrow> filled qs s ! j = zero_entry"
  by (simp add: filled_def nth_append)

lemma filled_snoc_other:
  "\<not> routed_to s p \<Longrightarrow> filled (qs @ [p]) s = filled qs s"
  by (simp add: filled_def)

lemma filled_snoc_same:
  assumes "routed_to s p" "length (filter (routed_to s) qs) < MAX_KEYS"
  shows "filled (qs @ [p]) s = (filled qs s)[length (filter (routed_to s) qs) := active_entry p]"
proof -
  let ?n = "length (filter (routed_to s) qs)"
  from assms(2) obtain m where m: "MAX_KEYS - ?n = Suc m"
    by (cases "MAX_KEYS - ?n") auto
  then have m': "MAX_KEYS - Suc ?n = m"
    by simp
  show ?thesis
    using assms(1) by (simp add: filled_def list_update_append m m')
qed

lemma fill_step:
  assumes sh: "kv_shards w = loaded qs"
    and idx: "0 \<le> get_shard_index k"
    and len: "length k < MAX_KEY_LENGTH" "length v < MAX_VALUE_LENGTH"
    and fresh: "k \<notin> fst ` set qs"
    and room: "length (filter (routed_to (nat (get_shard_index k))) qs) < MAX_KEYS"
  shows "\<exists>w'. set_key e k v w = Inr w' \<and> kv_shards w' = loaded (qs @ [(k, v)])"
proof -
  let ?s = "nat (get_shard_index k)"
  let ?F = "filter (routed_to ?s) qs"
  let ?n = "length ?F"
  have s: "?s < SHARD_COUNT"
    using idx by (rule shard_of_less)
  have routed: "routed_to ?s (k, v)"
    using idx by (simp add: routed_to_def)
  have t: "target_shard w k = filled qs ?s"
    using s by (simp add: target_shard_def sh loaded_nth)
  have "key (filled qs ?s ! j) \<noteq> k \<and> is_active (filled qs ?s ! j) \<noteq> 0" if "j < ?n" for j
  proof -
    have "?F ! j \<in> set qs"
      using that nth_mem [of j ?F] by auto
    then have "fst (?F ! j) \<noteq> k"
      using fresh by force
    then show ?thesis
      using that by (simp add: filled_nth_active active_entry_def)
  qed
  moreover have "is_active (filled qs ?s ! ?n) = 0"
    using room by (simp add: filled_nth_zero zero_entry_def)
  ultimately have slot: "set_slot k (target_shard w k) = Some ?n"
    unfolding set_slot_Some using room by (simp add: t)
  from set_key_written [OF idx slot len] obtain w' where
    w': "set_key e k v w = Inr w'"
    and sh': "kv_shards w' = write_slot ?s ?n \<lparr>key = k, val = v, is_active = 1\<rparr> (loaded qs)"
    by (auto simp: sh)
  have "kv_shards w' = loaded (qs @ [(k, v)])"
  proof (rule nth_equalityI)
    show "length (kv_shards w') = length (loaded (qs @ [(k, v)]))"
      by (simp add: sh' write_slot_def length_loaded)
  next
    fix s'
    assume "s' < length (kv_shards w')"
    then have s': "s' < SHARD_COUNT"
      by (simp add: sh' write_slot_def length_loaded)
    show "kv_shards w' ! s' = loaded (qs @ [(k, v)]) ! s'"
    proof (cases "s' = ?s")
      case True
      have "kv_shards w' ! ?s = (filled qs ?s)[?n := active_entry (k, v)]"
        using s by (simp add: sh' write_slot_shard length_loaded loaded_nth active_entry_def)
      also have "\<dots> = filled (qs @ [(k, v)]) ?s"
        using filled_snoc_same [OF routed room] by simp
      finally show ?thesis
        using True s by (simp add: loaded_nth)
    next
      case False
      then have "\<not> routed_to s' (k, v)"
        using idx by (auto simp: routed_to_def)
      then have "filled (qs @ [(k, v)]) s' = filled qs s'"
        by (rule filled_snoc_other)
      moreover have "kv_shards w' ! s' = loaded qs ! s'"
        using False by (simp add: sh' write_slot_def)
      ultimately show ?thesis
        using s' by (simp add: loaded_nth)
    qed
  qed
  with w' show ?thesis
    by blast
qed

lemma fill:
  assumes "kv_shards w = loaded qs"
    and "distinct (map fst (qs @ ps))"
    and "\<forall>p\<in>set ps. 0 \<le> get_shard_index (fst p) \<and> length (fst p) < MAX_KEY_LENGTH
                      \<and> length (snd p) < MAX_VALUE_LENGTH"
    and "\<forall>s. length (filter (routed_to s) (qs @ ps)) \<le> MAX_KEYS"
  shows "\<exists>w'. run e (map set_operation ps) w = Inr w' \<and> kv_shards w' = loaded (qs @ ps)"
  using assms
proof (induction ps arbitrary: qs w)
  case Nil
  then show ?case by simp
next
  case (Cons p ps)
  let ?s = "nat (get_shard_index (fst p))"
  have idx: "0 \<le> get_shard_index (fst p)"
    and len: "length (fst p) < MAX_KEY_LENGTH" "length (snd p) < MAX_VALUE_LENGTH"
    using Cons.prems(3) by simp_all
  have fresh: "fst p \<notin> fst ` set qs"
    using Cons.prems(2) by auto
  have "routed_to ?s p"
    using idx by (simp add: routed_to_def)
  then have "length (filter (routed_to ?s) qs) < length (filter (routed_to ?s) (qs @ p # ps))"
    by simp
  also have "\<dots> \<le> MAX_KEYS"
    using Cons.prems(4) by blast
  finally have room: "length (filter (routed_to ?s) qs) < MAX_KEYS" .
  from fill_step [OF Cons.prems(1) idx len fresh room, of e] obtain w1 where
    w1: "set_key e (fst p) (snd p) w = Inr w1" and sh1: "kv_shards w1 = loaded (qs @ [p])"
    by auto
  have "\<exists>w'. run e (map set_operation ps) w1 = Inr w' \<and> kv_shards w' = loaded ((qs @ [p]) @ ps)"
    using Cons.prems by (intro Cons.IH [OF sh1]) simp_all
  then show ?case
    using w1 by (simp add: set_operation_def [of p])
qed

lemma get_loaded:
  assumes sh: "kv_shards w = loaded qs"
    and dist: "distinct (map fst qs)"
    and mem: "(k, v) \<in> set qs"
    and idx: "0 \<le> get_shard_index k"
    and room: "\<forall>s. length (filter (routed_to s) qs) \<le> MAX_KEYS"
  shows "get_key k w = Inr (Some v)"
proof -
  let ?s = "nat (get_shard_index k)"
  let ?F = "filter (routed_to ?s) qs"
  have s: "?s < SHARD_COUNT"
    using idx by (rule shard_of_less)
  have t: "target_shard w k = filled qs ?s"
    using s by (simp add: target_shard_def sh loaded_nth)
  have "(k, v) \<in> set ?F"
    using mem idx by (simp add: routed_to_def)
  then obtain p where p: "p < length ?F" "?F ! p = (k, v)"
    by (metis in_set_conv_nth)
  have dF: "distinct (map fst ?F)"
    using dist by (rule distinct_map_filter)
  have lF: "length ?F \<le> MAX_KEYS"
    using room by blast
  have "key (filled qs ?s ! j) \<noteq> k" if "j < p" for j
  proof
    assume "key (filled qs ?s ! j) = k"
    then have "map fst ?F ! j = map fst ?F ! p"
      using that p by (simp add: filled_nth_active active_entry_def)
    moreover have "j < length (map fst ?F)" "p < length (map fst ?F)"
      using that p by simp_all
    ultimately have "j = p"
      using nth_eq_iff_index_eq [OF dF] by blast
    with that show False
      by simp
  qed
  then have "active_slot k (filled qs ?s) = Some p"
    unfolding active_slot_Some using p lF by (simp add: filled_nth_active active_entry_def)
  moreover have "val (filled qs ?s ! p) = v"
    using p by (simp add: filled_nth_active active_entry_def)
  ultimately show ?thesis
    by (simp add: get_key_eq [OF idx] t)
qed

lemma run_append:
  "run e (xs @ ys) w = (case run e xs w of Inl f \<Rightarrow> Inl f | Inr w' \<Rightarrow> run e ys w')"
  by (induction xs arbitrary: w) (auto split: sum.splits)

lemma length_keys100: "length keys100 = 100"
  by code_simp

lemma distinct_keys100: "distinct keys100"
  by code_simp

lemma routed_keys100: "\<forall>k\<in>set keys100. get_shard_index k = 0 \<and> length k = 2"
  by code_simp

lemma pairs100_facts:
  "distinct (map fst pairs100)"
  "\<forall>p\<in>set pairs100. 0 \<le> get_shard_index (fst p) \<and> length (fst p) < MAX_KEY_LENGTH
                        \<and> length (snd p) < MAX_VALUE_LENGTH"
  "\<forall>s. length (filter (routed_to s) pairs100) \<le> MAX_KEYS"
  "filter (routed_to 0) pairs100 = pairs100"
  "length pairs100 = MAX_KEYS"
proof -
  have m: "map fst pairs100 = keys100"
    by (simp add: pairs100_def comp_def)
  show "distinct (map fst pairs100)"
    by (simp add: m distinct_keys100)
  show "\<forall>p\<in>set pairs100. 0 \<le> get_shard_index (fst p) \<and> length (fst p) < MAX_KEY_LENGTH
                        \<and> length (snd p) < MAX_VALUE_LENGTH"
    using routed_keys100 by (auto simp: pairs100_def MAX_KEY_LENGTH_def MAX_VALUE_LENGTH_def)
  show l: "length pairs100 = MAX_KEYS"
    by (simp add: pairs100_def length_keys100 MAX_KEYS_def)
  show "\<forall>s. length (filter (routed_to s) pairs100) \<le> MAX_KEYS"
  proof
    fix s
    have "length (filter (routed_to s) pairs100) \<le> length pairs100"
      by (rule length_filter_le)
    then show "length (filter (routed_to s) pairs100) \<le> MAX_KEYS"
      by (simp add: l)
  qed
  show "filter (routed_to 0) pairs100 = pairs100"
    using routed_keys100 by (auto simp: pairs100_def routed_to_def filter_id_conv)
qed

lemma full_world_reached:
  "run env_ok (map set_operation pairs100) init_world = Inr full_world"
  "kv_shards full_world = loaded pairs100"
proof -
  have "kv_shards init_world = loaded []"
    by (simp add: init_world_def loaded_Nil)
  from fill [OF this, of pairs100 env_ok] pairs100_facts(1-3)
  obtain w' where w': "run env_ok (map set_operation pairs100) init_world = Inr w'"
    "kv_shards w' = loaded pairs100"
    by auto
  then have "full_world = w'"
    by (simp add: full_world_def)
  with w' show "run env_ok (map set_operation pairs100) init_world = Inr full_world"
    "kv_shards full_world = loaded pairs100"
    by simp_all
qed

lemma full_world_shard0:
  "get_shard_index k = 0 \<Longrightarrow> target_shard full_world k = map active_entry pairs100"
  by (simp add: target_shard_def full_world_reached(2) loaded_def SHARD_COUNT_def upt_rec
      filled_def pairs100_facts(4,5))

lemma full_world_slots:
  assumes "get_shard_index k = 0" "i < MAX_KEYS"
  shows "is_active (target_shard full_world k ! i) \<noteq> 0"
    and "key (target_shard full_world k ! i) \<in> set keys100"
proof -
  have "target_shard full_world k ! i = active_entry (pairs100 ! i)"
    using assms by (simp add: full_world_shard0 pairs100_facts(5))
  moreover have "fst (pairs100 ! i) \<in> set keys100"
    using assms(2) nth_mem [of i keys100] by (simp add: pairs100_def length_keys100 MAX_KEYS_def)
  ultimately show "is_active (target_shard full_world k ! i) \<noteq> 0"
    and "key (target_shard full_world k ! i) \<in> set keys100"
    by (simp_all add: active_entry_def)
qed

lemma well_formed_loaded:
  assumes "kv_shards w = loaded qs" "\<forall>s. length (filter (routed_to s) qs) \<le> MAX_KEYS"
  shows "well_formed w"
  using assms by (simp add: well_formed_def length_loaded loaded_nth filled_def)

lemma well_formed_full_world: "well_formed full_world"
  using full_world_reached(2) pairs100_facts(3) by (rule well_formed_loaded)

lemma well_formed_init_world: "well_formed init_world"
  by (simp add: well_formed_def init_world_def init_shards_def)

section \<open>Set followed by get; the full shard\<close>

lemma set_then_get_lemma:
  assumes wf: "well_formed w" and idx: "0 \<le> get_shard_index k"
    and len: "length k < MAX_KEY_LENGTH" "length v < MAX_VALUE_LENGTH"
    and slot: "set_slot k (target_shard w k) \<noteq> None"
  shows "\<exists>w'. set_key e k v w = Inr w' \<and> get_key k w' = Inr (Some v)"
proof -
  from slot obtain i where i: "set_slot k (target_shard w k) = Some i"
    by auto
  from set_key_written [OF idx i len] obtain w' where
    w': "set_key e k v w = Inr w'"
    and sh: "kv_shards w' = write_slot (nat (get_shard_index k)) i
               \<lparr>key = k, val = v, is_active = 1\<rparr> (kv_shards w)"
    by blast
  from wf_target [OF wf idx] have s: "nat (get_shard_index k) < length (kv_shards w)"
    and l: "length (target_shard w k) = MAX_KEYS"
    by simp_all
  from i have iM: "i < MAX_KEYS"
    and before: "\<forall>j<i. is_active (target_shard w k ! j) \<noteq> 0 \<and> key (target_shard w k ! j) \<noteq> k"
    by (simp_all add: set_slot_Some)
  have t: "target_shard w' k = (target_shard w k)[i := \<lparr>key = k, val = v, is_active = 1\<rparr>]"
    using s by (simp add: target_shard_def sh write_slot_shard)
  have "active_slot k (target_shard w' k) = Some i"
    unfolding active_slot_Some using iM l before by (simp add: t)
  moreover have "val (target_shard w' k ! i) = v"
    using iM l by (simp add: t)
  ultimately have "get_key k w' = Inr (Some v)"
    by (simp add: get_key_eq [OF idx])
  with w' show ?thesis
    by blast
qed

lemma well_formed_write_slot:
  assumes "well_formed w" "kv_shards w' = write_slot s i x (kv_shards w)"
  shows "well_formed w'"
proof -
  have "length (write_slot s i x (kv_shards w) ! s') = length (kv_shards w ! s')" for s'
    by (cases "s' = s"; cases "s < length (kv_shards w)")
       (simp_all add: write_slot_def list_update_beyond)
  then show ?thesis
    using assms by (simp add: well_formed_def write_slot_def)
qed

lemma full_world_drop:
  assumes idx: "get_shard_index k = 0" and new: "k \<notin> set keys100"
  shows "set_slot k (target_shard full_world k) = None"
    and "set_key e k v full_world = Inr full_world"
    and "get_key k full_world = Inr None"
proof -
  show n: "set_slot k (target_shard full_world k) = None"
    unfolding set_slot_None using full_world_slots [OF idx] new by metis
  then show "set_key e k v full_world = Inr full_world"
    by (intro set_key_dropped) (simp_all add: idx)
  from n have "active_slot k (target_shard full_world k) = None"
    by (simp add: set_slot_None active_slot_None)
  then show "get_key k full_world = Inr None"
    by (simp add: get_key_eq idx)
qed

lemma ccc_new: "get_shard_index ''ccc'' = 0" "''ccc'' \<notin> set keys100"
proof -
  show "get_shard_index ''ccc'' = 0"
    by code_simp
  show "''ccc'' \<notin> set keys100"
    using routed_keys100 by auto
qed

section \<open>The states reached by operations keep the array bounds\<close>

lemma set_key_well_formed:
  assumes "set_key e k v w = Inr w'" "well_formed w"
  shows "well_formed w'"
  using set_key_Inr [OF assms(1)] assms(2) by (auto intro: well_formed_write_slot)

lemma delete_key_well_formed:
  assumes "delete_key k w = Inr w'" "well_formed w"
  shows "well_formed w'"
  using delete_key_Inr [OF assms(1)] assms(2) by (auto intro: well_formed_write_slot)

lemma load_loop_well_formed:
  "load_loop e s vbuf w = Inr w' \<Longrightarrow> well_formed w \<Longrightarrow> well_formed w'"
proof (induction e s vbuf w rule: load_loop.induct)
  case (1 e s vbuf w)
  obtain r1 s1 where sc1: "scan_string (read_buffer_size e) (file_text w) s = (r1, s1)"
    by (cases "scan_string (read_buffer_size e) (file_text w) s")
  show ?case
  proof (cases r1)
    case None
    with "1.prems" sc1 show ?thesis
      by (simp add: load_loop.simps [of e s])
  next
    case (Some k)
    from "1.prems"(1) sc1 Some have klen: "\<not> MAX_KEY_LENGTH \<le> length k"
      by (auto simp: load_loop.simps [of e s] split: if_splits)
    obtain r2 s2 where sc2: "scan_string (read_buffer_size e) (file_text w) s1 = (r2, s2)"
      by (cases "scan_string (read_buffer_size e) (file_text w) s1")
    show ?thesis
    proof (cases r2)
      case None
      with "1.prems"(1) sc1 Some klen sc2 obtain v w1 where
        v: "vbuf = Some v" and w1: "set_key e (c_string k) (c_string v) w = Inr w1"
        and l: "load_loop e s2 vbuf w1 = Inr w'"
        by (auto simp: load_loop.simps [of e s] split: option.splits sum.splits)
      from w1 "1.prems"(2) have "well_formed w1"
        by (rule set_key_well_formed)
      with "1.IH"(1) [OF sc1 [symmetric] Some klen sc2 [symmetric] None v w1] l
      show ?thesis
        by simp
    next
      case (Some v)
      from "1.prems"(1) sc1 \<open>r1 = Some k\<close> klen sc2 Some
      have vlen: "\<not> MAX_VALUE_LENGTH \<le> length v"
        by (auto simp: load_loop.simps [of e s] split: if_splits)
      with "1.prems"(1) sc1 \<open>r1 = Some k\<close> klen sc2 Some obtain w1 where
        w1: "set_key e (c_string k) (c_string v) w = Inr w1"
        and l: "load_loop e s2 (Some v) w1 = Inr w'"
        by (auto simp: load_loop.simps [of e s] split: sum.splits)
      from w1 "1.prems"(2) have "well_formed w1"
        by (rule set_key_well_formed)
      with "1.IH"(2) [OF sc1 [symmetric] \<open>r1 = Some k\<close> klen sc2 [symmetric] Some vlen w1] l
      show ?thesis
        by simp
    qed
  qed
qed

lemma apply_operation_well_formed:
  assumes "apply_operation e x w = Inr w'" "well_formed w"
  shows "well_formed w'"
proof (cases x)
  case (Set k v)
  with assms show ?thesis
    by (auto intro: set_key_well_formed)
next
  case (Get k)
  with assms show ?thesis
    by (auto split: sum.splits)
next
  case (Delete k)
  with assms show ?thesis
    by (auto intro: delete_key_well_formed)
next
  case Load
  with assms show ?thesis
    by (auto simp: load_from_disk_def split: option.splits intro: load_loop_well_formed)
next
  case Persist
  with assms show ?thesis
    by (auto simp: well_formed_def)
qed

lemma run_well_formed:
  "run e ops w = Inr w' \<Longrightarrow> well_formed w \<Longrightarrow> well_formed w'"
proof (induction ops arbitrary: w)
  case Nil
  then show ?case by simp
next
  case (Cons x xs)
  then show ?case
    by (auto split: sum.splits dest: apply_operation_well_formed)
qed

lemma reachable_well_formed:
  "run e ops init_world = Inr w \<Longrightarrow> well_formed w"
  using well_formed_init_world by (rule run_well_formed [rotated])

section \<open>The claims\<close>

subsection \<open>C8: range of the router\<close>

text \<open>
  C8 (the router returns an index in \<open>[0, SHARD_COUNT)\<close> for every key, also for keys
  with arbitrary byte values, and is a function of the key's bytes). The result is a
  function of the bytes, but not always in range: for the two bytes of the UTF-8 encoding
  of a Latin small e with acute, which read as the negative \<open>char\<close> values \<open>-61\<close> and
  \<open>-87\<close>, the truncating \<open>%\<close> gives \<open>-1\<close>.
\<close>

theorem get_shard_index_negative:
  "get_shard_index [CHR 0xC3, CHR 0xA9] = - 1"
  by code_simp

text \<open>For keys of bytes below \<open>0x80\<close> the index is in range.\<close>

lemma char_value_ascii:
  assumes "of_char c < (128::nat)"
  shows "char_value c = int (of_char c)"
proof -
  have "(of_char c :: 8 word) = word_of_nat (of_char c)"
    by (simp add: of_nat_of_char)
  then have "char_value c = signed_take_bit 7 (int (of_char c))"
    by (simp add: char_value_def signed_of_nat)
  also have "\<dots> = int (of_char c)"
    using assms by (intro signed_take_bit_int_eq_self) simp_all
  finally show ?thesis .
qed

lemma hash_loop_ascii:
  "0 \<le> h \<Longrightarrow> \<forall>c\<in>set k. of_char c < (128::nat) \<Longrightarrow> 0 \<le> hash_loop h k"
proof (induction k arbitrary: h)
  case Nil
  then show ?case by simp
next
  case (Cons c cs)
  have "0 \<le> h * 31 + char_value c"
    using Cons.prems by (simp add: char_value_ascii)
  then have "0 \<le> (h * 31 + char_value c) smod int SHARD_COUNT"
    by (simp add: smod_int_compares SHARD_COUNT_def)
  then show ?case
    using Cons by simp
qed

lemma get_shard_index_ascii:
  "\<forall>c\<in>set k. of_char c < (128::nat) \<Longrightarrow>
     0 \<le> get_shard_index k \<and> get_shard_index k < int SHARD_COUNT"
  using hash_loop_ascii [of 0 k] get_shard_index_upper [of k] by (simp add: get_shard_index_def)

subsection \<open>C1, C2: one active entry per key\<close>

text \<open>
  C1 (in every reachable state a shard holds at most one active entry per key; a set on
  a key that is active overwrites its slot and leaves no second active entry). After
  \<open>set(a,1); set(d,2); delete(a); set(d,3)\<close>, all routed to shard 1, the slots 0 and 1
  of shard 1 are both active with key \<open>d\<close>.
\<close>

theorem duplicate_active_key:
  "slot_after env_ok duplicating_operations 1 0 = Inr \<lparr>key = ''d'', val = ''3'', is_active = 1\<rparr>
   \<and> slot_after env_ok duplicating_operations 1 1
       = Inr \<lparr>key = ''d'', val = ''2'', is_active = 1\<rparr>"
  by code_simp

text \<open>
  C2 (set first looks for an active slot with the key and overwrites it; only when there
  is none anywhere in the shard does it take the first inactive slot). After
  \<open>set(a,1); set(d,2); delete(a)\<close> the active slot with key \<open>d\<close> is slot 1, and the
  slot the scan of \<open>set_key\<close> selects for \<open>d\<close> is the inactive slot 0.
\<close>

theorem set_scan_prefers_inactive_slot:
  "scan_after env_ok [Set ''a'' ''1'', Set ''d'' ''2'', Delete ''a''] ''d''
     = Inr (Some 1, Some 0)"
  by code_simp

subsection \<open>C5: oversized keys and values\<close>

text \<open>
  C5 (a set with a key or value beyond the length limit fails with a validation error
  before any shard is touched, and leaves every shard unchanged). \<open>set_key\<close> checks no
  length: with a 50-byte key on the empty store the scan selects a slot and the copy
  overruns its 50-byte array; with a 50-byte key routed to a full shard the call returns
  normally, as for any other key.
\<close>

theorem oversized_key_not_rejected:
  "set_key env_ok (replicate 50 CHR ''a'') ''v'' init_world = Inl Buffer_Overrun
   \<and> set_key env_ok (replicate 50 CHR ''c'') ''v'' full_world = Inr full_world"
proof
  show "set_key env_ok (replicate 50 CHR ''a'') ''v'' init_world = Inl Buffer_Overrun"
    by code_simp
next
  have idx: "get_shard_index (replicate 50 CHR ''c'') = 0"
    by code_simp
  have "replicate 50 CHR ''c'' \<notin> set keys100"
    using routed_keys100 by fastforce
  with idx show "set_key env_ok (replicate 50 CHR ''c'') ''v'' full_world = Inr full_world"
    by (rule full_world_drop(2))
qed

subsection \<open>C6: set followed by get\<close>

text \<open>
  C6 (in every reachable state, for \<open>k\<close> and \<open>v\<close> within the length limits, set(k, v)
  followed by get(k) returns \<open>v\<close>), as amended: in every state with the array bounds of
  the source, for \<open>k\<close> routed to an index that is not negative and \<open>k\<close>, \<open>v\<close> within
  the limits, set(k, v) followed by get(k) returns \<open>v\<close> when the target shard has a slot
  that is inactive or holds \<open>k\<close>; when it has none, set returns without changing
  anything and get(k) returns nothing.
\<close>

theorem set_then_get:
  assumes "well_formed w" and "0 \<le> get_shard_index k"
    and "length k < MAX_KEY_LENGTH" and "length v < MAX_VALUE_LENGTH"
  shows "(set_slot k (target_shard w k) \<noteq> None \<longrightarrow>
            (\<exists>w'. set_key e k v w = Inr w' \<and> get_key k w' = Inr (Some v)))
       \<and> (set_slot k (target_shard w k) = None \<longrightarrow>
            set_key e k v w = Inr w \<and> get_key k w = Inr None)"
proof (intro conjI impI)
  assume "set_slot k (target_shard w k) \<noteq> None"
  with assms show "\<exists>w'. set_key e k v w = Inr w' \<and> get_key k w' = Inr (Some v)"
    by (rule set_then_get_lemma)
next
  assume n: "set_slot k (target_shard w k) = None"
  with assms(2) show "set_key e k v w = Inr w"
    by (rule set_key_dropped)
next
  assume n: "set_slot k (target_shard w k) = None"
  then have "active_slot k (target_shard w k) = None"
    by (simp add: set_slot_None active_slot_None)
  then show "get_key k w = Inr None"
    by (simp add: get_key_eq [OF assms(2)])
qed

text \<open>The empty store, the key \<open>a\<close> and the value \<open>1\<close>.\<close>

theorem set_then_get_witness:
  "well_formed init_world \<and> 0 \<le> get_shard_index ''a'' \<and> length ''a'' < MAX_KEY_LENGTH
   \<and> length ''1'' < MAX_VALUE_LENGTH \<and> set_slot ''a'' (target_shard init_world ''a'') \<noteq> None
   \<and> (\<exists>w'. set_key env_ok ''a'' ''1'' init_world = Inr w' \<and> get_key ''a'' w' = Inr (Some ''1''))"
proof -
  have wf: "well_formed init_world"
    by (rule well_formed_init_world)
  have idx: "0 \<le> get_shard_index ''a''"
    by code_simp
  have len: "length ''a'' < MAX_KEY_LENGTH" "length ''1'' < MAX_VALUE_LENGTH"
    by (simp_all add: MAX_KEY_LENGTH_def MAX_VALUE_LENGTH_def)
  have slot: "set_slot ''a'' (target_shard init_world ''a'') \<noteq> None"
    by code_simp
  from set_then_get [OF wf idx len, of env_ok] slot
  show ?thesis
    using wf idx len by blast
qed

text \<open>
  C6 as stated fails: after one hundred sets of distinct keys routed to shard 0, the set
  of a further key \<open>ccc\<close> of that shard is dropped and get finds nothing.
\<close>

theorem set_then_get_counterexample:
  "get_after env_ok (map set_operation pairs100 @ [Set ''ccc'' ''x'']) ''ccc'' = Inr None"
  using full_world_drop(2,3) [OF ccc_new]
  by (simp add: get_after_def run_append full_world_reached(1))

subsection \<open>C4: set on a full shard\<close>

text \<open>
  C4 (a set on a shard whose slots are all active with other keys fails with a
  CapacityExceeded error reported to the caller, and the keys stored in that shard stay
  retrievable), as amended: such a set returns normally and leaves the whole state as it
  was (no slot written, nothing logged, persisted or replicated, no error of any kind),
  and get finds every key that is stored in that shard and routed to it.
\<close>

theorem set_on_full_shard:
  assumes idx: "0 \<le> get_shard_index k"
    and full: "\<forall>i<MAX_KEYS. is_active (target_shard w k ! i) \<noteq> 0 \<and> key (target_shard w k ! i) \<noteq> k"
  shows "set_key e k v w = Inr w
       \<and> (\<forall>i<MAX_KEYS. get_shard_index (key (target_shard w k ! i)) = get_shard_index k \<longrightarrow>
            (\<exists>v'. get_key (key (target_shard w k ! i)) w = Inr (Some v')))"
proof (intro conjI allI impI)
  from full have "set_slot k (target_shard w k) = None"
    by (simp add: set_slot_None)
  with idx show "set_key e k v w = Inr w"
    by (rule set_key_dropped)
next
  fix i
  let ?k' = "key (target_shard w k ! i)"
  assume i: "i < MAX_KEYS" and same: "get_shard_index ?k' = get_shard_index k"
  then have t: "target_shard w ?k' = target_shard w k"
    by (simp add: target_shard_def)
  have "active_slot ?k' (target_shard w k) \<noteq> None"
    unfolding active_slot_None using i full by blast
  then show "\<exists>v'. get_key ?k' w = Inr (Some v')"
    using idx same by (auto simp: get_key_eq t)
qed

text \<open>The full shard 0, the new key \<open>ccc\<close>, and the stored key \<open>cc\<close>.\<close>

theorem set_on_full_shard_witness:
  "0 \<le> get_shard_index ''ccc''
   \<and> is_active (target_shard full_world ''ccc'' ! 0) \<noteq> 0
   \<and> key (target_shard full_world ''ccc'' ! 0) \<noteq> ''ccc''
   \<and> set_key env_ok ''ccc'' ''x'' full_world = Inr full_world
   \<and> get_key ''cc'' full_world = Inr (Some ''v'')"
proof -
  have idx: "0 \<le> get_shard_index ''ccc''"
    by (simp add: ccc_new)
  have full: "\<forall>i<MAX_KEYS. is_active (target_shard full_world ''ccc'' ! i) \<noteq> 0
                    \<and> key (target_shard full_world ''ccc'' ! i) \<noteq> ''ccc''"
    using full_world_slots [OF ccc_new(1)] ccc_new(2) by metis
  have "(''cc'', ''v'') \<in> set pairs100"
    by code_simp
  then have "get_key ''cc'' full_world = Inr (Some ''v'')"
    using full_world_reached(2) pairs100_facts(1,2,3)
    by (intro get_loaded [where qs = pairs100]) auto
  moreover have "0 < MAX_KEYS"
    by (simp add: MAX_KEYS_def)
  ultimately show ?thesis
    using set_on_full_shard [OF idx full, of env_ok "''x''"] idx full by blast
qed

text \<open>
  C4 as stated fails: the store after the hundred sets is full in shard 0, and the set of
  \<open>ccc\<close> returns as every successful set does, with the state unchanged.
\<close>

theorem set_on_full_shard_counterexample:
  "run env_ok (map set_operation pairs100) init_world = Inr full_world
   \<and> set_key env_ok ''ccc'' ''x'' full_world = Inr full_world"
  using full_world_reached(1) full_world_drop(2) [OF ccc_new] by simp

subsection \<open>C9: the replication hook\<close>




subsection \<open>C10: frame of set and delete\<close>

text \<open>
  C10 (for every key, a call of set(k, v) or delete(k) writes at most one slot, in the
  shard the router selects for \<open>k\<close>, and leaves every other slot of every shard
  unchanged). For the key of the two bytes \<open>0xC3 0xA9\<close> the router index is \<open>-1\<close>
  (C8), and both \<open>set_key\<close> and \<open>delete_key\<close> index \<open>kv_shards[-1]\<close>, outside the
  table. With a value of 107 bytes, \<open>set_key\<close> copies past the end of the array
  \<open>value\<close> of the slot it selected (C5); a \<open>KVEntry\<close> occupies 156 bytes, so the copy
  reaches the key of the next slot.
\<close>

theorem write_outside_selected_slot:
  "set_key env_ok [CHR 0xC3, CHR 0xA9] ''v'' init_world = Inl Index_Out_Of_Bounds
   \<and> delete_key [CHR 0xC3, CHR 0xA9] init_world = Inl Index_Out_Of_Bounds
   \<and> set_key env_ok ''a'' (replicate 107 CHR ''x'') init_world = Inl Buffer_Overrun"
  by code_simp

text \<open>
  For the calls that return, the frame holds: the router index is in range and every
  slot other than one slot of the selected shard is as before. Both calls return for
  every key routed to an index that is not negative (and, for set, \<open>k\<close> and \<open>v\<close>
  within the limits).
\<close>

lemma single_slot_frame:
  "(0 \<le> get_shard_index k \<and> length k < MAX_KEY_LENGTH \<and> length v < MAX_VALUE_LENGTH \<longrightarrow>
      (\<exists>w'. set_key e k v w = Inr w'))
   \<and> (0 \<le> get_shard_index k \<longrightarrow> (\<exists>w'. delete_key k w = Inr w'))
   \<and> (\<forall>w'. set_key e k v w = Inr w' \<or> delete_key k w = Inr w' \<longrightarrow>
        0 \<le> get_shard_index k \<and> get_shard_index k < int SHARD_COUNT
        \<and> (\<exists>i<MAX_KEYS. \<forall>s j. s \<noteq> nat (get_shard_index k) \<or> j \<noteq> i \<longrightarrow>
              kv_shards w' ! s ! j = kv_shards w ! s ! j))"
proof (intro conjI allI impI)
  assume a: "0 \<le> get_shard_index k \<and> length k < MAX_KEY_LENGTH \<and> length v < MAX_VALUE_LENGTH"
  show "\<exists>w'. set_key e k v w = Inr w'"
  proof (cases "set_slot k (target_shard w k)")
    case None
    with a show ?thesis
      by (auto dest: set_key_dropped)
  next
    case (Some i)
    with a set_key_written [of k w i v e] show ?thesis
      by auto
  qed
next
  assume "0 \<le> get_shard_index k"
  then show "\<exists>w'. delete_key k w = Inr w'"
    using get_shard_index_upper [of k]
    by (simp add: delete_key_def Let_def split: option.splits)
next
  fix w'
  assume r: "set_key e k v w = Inr w' \<or> delete_key k w = Inr w'"
  have MK: "0 < MAX_KEYS"
    by (simp add: MAX_KEYS_def)
  from r have idx: "0 \<le> get_shard_index k"
    by (auto dest: set_key_Inr delete_key_Inr)
  have "\<exists>i<MAX_KEYS. \<forall>s j. s \<noteq> nat (get_shard_index k) \<or> j \<noteq> i \<longrightarrow>
              kv_shards w' ! s ! j = kv_shards w ! s ! j"
    using r
  proof
    assume "set_key e k v w = Inr w'"
    from set_key_Inr [OF this] show ?thesis
      using MK by (auto simp: set_slot_Some write_slot_other)
  next
    assume "delete_key k w = Inr w'"
    from delete_key_Inr [OF this] show ?thesis
      using MK by (auto simp: active_slot_Some write_slot_other)
  qed
  with idx get_shard_index_upper [of k]
  show "0 \<le> get_shard_index k" "get_shard_index k < int SHARD_COUNT"
    "\<exists>i<MAX_KEYS. \<forall>s j. s \<noteq> nat (get_shard_index k) \<or> j \<noteq> i \<longrightarrow>
              kv_shards w' ! s ! j = kv_shards w ! s ! j"
    by simp_all
qed

subsection \<open>C7: delete followed by get, and reuse of the slot\<close>

lemma delete_key_found:
  assumes "0 \<le> get_shard_index k" "active_slot k (target_shard w k) = Some i"
  shows "\<exists>w'. delete_key k w = Inr w' \<and>
           kv_shards w' = write_slot (nat (get_shard_index k)) i
                            ((target_shard w k ! i)\<lparr>is_active := 0\<rparr>) (kv_shards w)"
  using assms get_shard_index_upper [of k]
  by (simp add: delete_key_def target_shard_def Let_def)

lemma delete_key_missing:
  assumes "0 \<le> get_shard_index k" "active_slot k (target_shard w k) = None"
  shows "delete_key k w = Inr w"
  using assms get_shard_index_upper [of k]
  by (simp add: delete_key_def target_shard_def Let_def)

lemma delete_then_get_lemma:
  assumes wf: "well_formed w" and idx: "0 \<le> get_shard_index k"
    and uniq: "\<forall>i<MAX_KEYS. \<forall>j<MAX_KEYS.
        is_active (target_shard w k ! i) \<noteq> 0 \<and> key (target_shard w k ! i) = k \<and>
        is_active (target_shard w k ! j) \<noteq> 0 \<and> key (target_shard w k ! j) = k \<longrightarrow> i = j"
  shows "\<exists>w'. delete_key k w = Inr w' \<and> well_formed w' \<and> get_key k w' = Inr None
           \<and> (get_key k w \<noteq> Inr None \<longrightarrow> set_slot k (target_shard w' k) \<noteq> None)"
proof (cases "active_slot k (target_shard w k)")
  case None
  then have "delete_key k w = Inr w" "get_key k w = Inr None"
    using idx by (simp_all add: delete_key_missing get_key_eq)
  with wf show ?thesis
    by simp
next
  case (Some i)
  from delete_key_found [OF idx Some] obtain w' where
    w': "delete_key k w = Inr w'"
    and sh: "kv_shards w' = write_slot (nat (get_shard_index k)) i
               ((target_shard w k ! i)\<lparr>is_active := 0\<rparr>) (kv_shards w)"
    by blast
  from wf_target [OF wf idx] have s: "nat (get_shard_index k) < length (kv_shards w)"
    and l: "length (target_shard w k) = MAX_KEYS"
    by simp_all
  from Some have i: "i < MAX_KEYS" "is_active (target_shard w k ! i) \<noteq> 0"
    "key (target_shard w k ! i) = k"
    by (simp_all add: active_slot_Some)
  have t: "target_shard w' k = (target_shard w k)[i := (target_shard w k ! i)\<lparr>is_active := 0\<rparr>]"
    using s by (simp add: target_shard_def sh write_slot_shard)
  have wf': "well_formed w'"
    using wf sh by (rule well_formed_write_slot)
  have "\<not> (is_active (target_shard w' k ! j) \<noteq> 0 \<and> key (target_shard w' k ! j) = k)"
    if "j < MAX_KEYS" for j
  proof (cases "j = i")
    case True
    then show ?thesis
      using i l by (simp add: t)
  next
    case False
    then have "target_shard w' k ! j = target_shard w k ! j"
      by (simp add: t)
    moreover have "\<not> (is_active (target_shard w k ! j) \<noteq> 0 \<and> key (target_shard w k ! j) = k)"
      using uniq i that False by blast
    ultimately show ?thesis
      by simp
  qed
  then have "active_slot k (target_shard w' k) = None"
    by (simp add: active_slot_None)
  then have g: "get_key k w' = Inr None"
    by (simp add: get_key_eq [OF idx])
  have "is_active (target_shard w' k ! i) = 0"
    using i l by (simp add: t)
  then have "set_slot k (target_shard w' k) \<noteq> None"
    unfolding set_slot_None using i(1) by blast
  with w' wf' g show ?thesis
    by blast
qed

text \<open>
  C7 (in every reachable state, delete(k) followed by get(k) returns NotFound, and a
  following set(k, v2) and get(k) returns \<open>v2\<close>), as amended: in every state with the
  array bounds of the source, for \<open>k\<close> routed to an index that is not negative and held
  by at most one active slot of its shard, delete(k) followed by get(k) returns nothing;
  if \<open>k\<close> was found before the delete, the shard then has a slot for \<open>k\<close>; and if the
  shard has a slot for \<open>k\<close> after the delete and \<open>k\<close>, \<open>v2\<close> are within the limits, a
  following set(k, v2) and get(k) returns \<open>v2\<close>.
\<close>

theorem delete_then_get:
  assumes wf: "well_formed w" and idx: "0 \<le> get_shard_index k"
    and uniq: "\<forall>i<MAX_KEYS. \<forall>j<MAX_KEYS.
        is_active (target_shard w k ! i) \<noteq> 0 \<and> key (target_shard w k ! i) = k \<and>
        is_active (target_shard w k ! j) \<noteq> 0 \<and> key (target_shard w k ! j) = k \<longrightarrow> i = j"
  shows "\<exists>w'. delete_key k w = Inr w' \<and> get_key k w' = Inr None
           \<and> (get_key k w \<noteq> Inr None \<longrightarrow> set_slot k (target_shard w' k) \<noteq> None)
           \<and> (length k < MAX_KEY_LENGTH \<and> length v2 < MAX_VALUE_LENGTH
                \<and> set_slot k (target_shard w' k) \<noteq> None \<longrightarrow>
                (\<exists>w''. set_key e k v2 w' = Inr w'' \<and> get_key k w'' = Inr (Some v2)))"
proof -
  from delete_then_get_lemma [OF assms] obtain w' where
    w': "delete_key k w = Inr w'" "well_formed w'" "get_key k w' = Inr None"
    "get_key k w \<noteq> Inr None \<longrightarrow> set_slot k (target_shard w' k) \<noteq> None"
    by blast
  have "\<exists>w''. set_key e k v2 w' = Inr w'' \<and> get_key k w'' = Inr (Some v2)"
    if "length k < MAX_KEY_LENGTH \<and> length v2 < MAX_VALUE_LENGTH
          \<and> set_slot k (target_shard w' k) \<noteq> None"
    using that set_then_get_lemma [OF w'(2) idx, of v2 e] by blast
  with w' show ?thesis
    by blast
qed

lemma single_world_shard:
  "target_shard single_world ''a'' = (replicate MAX_KEYS zero_entry)[0 := \<lparr>key = ''a'', val = ''1'', is_active = 1\<rparr>]"
proof -
  have "get_shard_index ''a'' = 1"
    by code_simp
  then show ?thesis
    by (simp add: target_shard_def single_world_def init_world_def init_shards_def write_slot_def
        SHARD_COUNT_def)
qed

lemma well_formed_single_world: "well_formed single_world"
  by (rule well_formed_write_slot [OF well_formed_init_world])
     (simp add: single_world_def init_world_def)

text \<open>The store that holds \<open>(a, 1)\<close> alone: delete, get, set \<open>(a, 2)\<close>, get.\<close>

theorem delete_then_get_witness:
  "well_formed single_world \<and> 0 \<le> get_shard_index ''a''
   \<and> get_key ''a'' single_world = Inr (Some ''1'')
   \<and> (\<exists>w'. delete_key ''a'' single_world = Inr w' \<and> get_key ''a'' w' = Inr None
         \<and> (\<exists>w''. set_key env_ok ''a'' ''2'' w' = Inr w'' \<and> get_key ''a'' w'' = Inr (Some ''2'')))"
proof -
  have idx: "0 \<le> get_shard_index ''a''"
    by code_simp
  have uniq: "\<forall>i<MAX_KEYS. \<forall>j<MAX_KEYS.
        is_active (target_shard single_world ''a'' ! i) \<noteq> 0 \<and> key (target_shard single_world ''a'' ! i) = ''a'' \<and>
        is_active (target_shard single_world ''a'' ! j) \<noteq> 0 \<and> key (target_shard single_world ''a'' ! j) = ''a'' \<longrightarrow> i = j"
    by (auto simp: single_world_shard nth_list_update zero_entry_def split: if_splits)
  have "active_slot ''a'' (target_shard single_world ''a'') = Some 0"
    unfolding active_slot_Some by (simp add: single_world_shard MAX_KEYS_def)
  then have g: "get_key ''a'' single_world = Inr (Some ''1'')"
    by (simp add: get_key_eq [OF idx] single_world_shard MAX_KEYS_def)
  have len: "length ''a'' < MAX_KEY_LENGTH" "length ''2'' < MAX_VALUE_LENGTH"
    by (simp_all add: MAX_KEY_LENGTH_def MAX_VALUE_LENGTH_def)
  from delete_then_get [OF well_formed_single_world idx uniq, of "''2''" env_ok] g len
  show ?thesis
    using well_formed_single_world idx by auto
qed

text \<open>
  C7 as stated fails twice. After the four operations that leave \<open>d\<close> in two active
  slots, delete(d) clears the first one only and get(d) returns the older value. And on
  the full shard 0, delete of the absent key \<open>ccc\<close>, set and get finds nothing, since
  the set is dropped.
\<close>

theorem delete_then_get_counterexample:
  "get_after env_ok (duplicating_operations @ [Delete ''d'']) ''d'' = Inr (Some ''2'')
   \<and> get_after env_ok (map set_operation pairs100 @ [Delete ''ccc'', Set ''ccc'' ''x'']) ''ccc''
       = Inr None"
proof
  show "get_after env_ok (duplicating_operations @ [Delete ''d'']) ''d'' = Inr (Some ''2'')"
    by code_simp
next
  have "active_slot ''ccc'' (target_shard full_world ''ccc'') = None"
    using full_world_drop(1) [OF ccc_new] by (simp add: set_slot_None active_slot_None)
  then have "delete_key ''ccc'' full_world = Inr full_world"
    by (intro delete_key_missing) (simp_all add: ccc_new)
  then show "get_after env_ok (map set_operation pairs100 @ [Delete ''ccc'', Set ''ccc'' ''x''])
               ''ccc'' = Inr None"
    using full_world_drop(2,3) [OF ccc_new]
    by (simp add: get_after_def run_append full_world_reached(1))
qed

subsection \<open>C3: snapshot round trip\<close>

































text \<open>
  The hypothesis on the length of the snapshot cannot be dropped. Every set of the
  loading loop rewrites the file that the loop is reading, with the store as loaded so
  far, and the next fetch of the stream finds the end of that shorter file. With a
  stream that fetches 4 bytes at a time, the snapshot \<open>a 1\<close>, \<open>d 2\<close> of two sets is read
  back up to its first line, and \<open>d\<close> is lost; streams with larger buffers lose the
  entries beyond the first fetch in the same way.
\<close>

lemma load_overwrites_its_input:
  "get_after (env_ok\<lparr>read_buffer_size := 4\<rparr>) [Set ''a'' ''1'', Set ''d'' ''2''] ''d''
     = Inr (Some ''2'')
   \<and> get_after_restart (env_ok\<lparr>read_buffer_size := 4\<rparr>) [Set ''a'' ''1'', Set ''d'' ''2''] ''d''
       = Inr None"
  by code_simp

end
